theory Spec2Isabelle
  imports Main "HOL-Library.AList" "HOL-Library.Word"
begin

section \<open>Range sync orchestrator (packages/lodestar/src/sync/range/range.ts)\<close>

subsection \<open>Data model\<close>

type_synonym Epoch = nat
type_synonym Slot = nat
type_synonym Root = "8 word list"
type_synonym PeerId = string
type_synonym SyncChainId = string

text \<open>The \<open>Status\<close> message of a node: its finalized checkpoint and its head. Slots and
  epochs are JavaScript numbers holding non-negative integers; they are natural numbers here.\<close>

record Status =
  finalizedRoot :: Root
  finalizedEpoch :: Epoch
  headRoot :: Root
  headSlot :: Slot

record ChainTarget =
  slot :: Slot
  root :: Root

datatype RangeSyncType = Finalized | Head

text \<open>\<open>RangeSyncState\<close>: the tagged union over \<open>RangeSyncStatus\<close>.\<close>

datatype RangeSyncState =
    StatusFinalized ChainTarget
  | StatusHead "ChainTarget list"
  | StatusIdle

datatype Error = ErrorAborted | BlocksByRangeError | OtherError string

subsection \<open>The chain id\<close>

definition hexDigits :: string where
  "hexDigits = ''0123456789abcdef''"

text \<open>\<open>Number.isSafeInteger\<close> on a non-negative integer: below \<open>2^53\<close>.\<close>

definition isSafeInteger :: "nat \<Rightarrow> bool" where
  "isSafeInteger n = (n < 9007199254740992)"

text \<open>The decimal digits of a natural number.\<close>

fun showDigits :: "nat \<Rightarrow> string" where
  "showDigits n =
     (if n < 10 then [hexDigits ! n] else showDigits (n div 10) @ [hexDigits ! (n mod 10)])"

declare showDigits.simps [simp del]

text \<open>A number in a template literal. A slot is a JavaScript number. A safe integer prints
  as its decimal digits. From \<open>2^53\<close> on a number no longer holds every integer and prints
  as the shortest digits that read back as the same number (in exponent notation from
  \<open>10^21\<close>): that printing is not modelled. The string is left unspecified there (it is
  some function of the number), so nothing is proved of its digits, and a statement that
  depends on the printed slot carries the bound.\<close>

definition showNumber :: "nat \<Rightarrow> string" where
  "showNumber n = (if isSafeInteger n then showDigits n else undefined n)"

text \<open>\<open>toHexString\<close> of the ssz library: \<open>0x\<close>, then two lower-case hexadecimal digits
  for every byte.\<close>

definition hexByte :: "8 word \<Rightarrow> string" where
  "hexByte b = [hexDigits ! (unat b div 16), hexDigits ! (unat b mod 16)]"

definition toHexString :: "Root \<Rightarrow> string" where
  "toHexString bytes = ''0x'' @ concat (map hexByte bytes)"

text \<open>Modelled from the spec: the enum \<open>RangeSyncType\<close> is declared in
  \<open>sync/utils/remoteSyncType\<close>, which is not among the sources; the spec names its two
  values \<open>Finalized\<close> and \<open>Head\<close>, and the template literal prints the value.\<close>

fun showSyncType :: "RangeSyncType \<Rightarrow> string" where
  "showSyncType Finalized = ''Finalized''"
| "showSyncType Head = ''Head''"

definition getSyncChainId :: "RangeSyncType \<Rightarrow> ChainTarget \<Rightarrow> SyncChainId" where
  "getSyncChainId ty tgt =
     showSyncType ty @ ''-'' @ showNumber (slot tgt) @ ''-'' @ toHexString (root tgt)"

subsection \<open>SyncChain objects\<close>

text \<open>Modelled from the spec: the class \<open>SyncChain\<close> lives in \<open>sync/range/chain\<close>, which is
  not among the sources. The orchestrator passes \<open>startEpoch\<close>, \<open>target\<close> and \<open>syncType\<close> to
  its constructor and reads \<open>syncType\<close>, \<open>target\<close> and \<open>isSyncing\<close>; the spec (sections 3 and
  4.2) gives it a peer pool, where \<open>addPeer\<close> inserts a peer and \<open>removePeer\<close> removes it,
  and a flag \<open>isSyncing\<close> that \<open>startSyncing\<close> raises and \<open>stopSyncing\<close> lowers; \<open>remove\<close>
  tears the chain down and releases all its peers. The pool is an insertion-ordered set.
  The field \<open>oid\<close> is the identity of the object, given at allocation.\<close>

record SyncChain =
  oid :: nat
  startEpoch :: Epoch
  target :: ChainTarget
  syncType :: RangeSyncType
  peers :: "PeerId list"
  isSyncing :: bool

definition new_SyncChain :: "nat \<Rightarrow> Epoch \<Rightarrow> ChainTarget \<Rightarrow> RangeSyncType \<Rightarrow> SyncChain" where
  "new_SyncChain i e t ty =
     \<lparr>oid = i, startEpoch = e, target = t, syncType = ty, peers = [], isSyncing = False\<rparr>"

definition SyncChain_addPeer :: "PeerId \<Rightarrow> SyncChain \<Rightarrow> SyncChain" where
  "SyncChain_addPeer p c = (if p \<in> set (peers c) then c else c\<lparr>peers := peers c @ [p]\<rparr>)"

definition SyncChain_removePeer :: "PeerId \<Rightarrow> SyncChain \<Rightarrow> SyncChain" where
  "SyncChain_removePeer p c = c\<lparr>peers := removeAll p (peers c)\<rparr>"

definition SyncChain_startSyncing :: "SyncChain \<Rightarrow> SyncChain" where
  "SyncChain_startSyncing c = c\<lparr>isSyncing := True\<rparr>"

definition SyncChain_stopSyncing :: "SyncChain \<Rightarrow> SyncChain" where
  "SyncChain_stopSyncing c = c\<lparr>isSyncing := False\<rparr>"

definition SyncChain_remove :: "SyncChain \<Rightarrow> SyncChain" where
  "SyncChain_remove c = c\<lparr>peers := [], isSyncing := False\<rparr>"

subsection \<open>Collaborators and effects\<close>

text \<open>A block as far as the orchestrator looks at it: the slot of its message.\<close>

datatype SignedBeaconBlock = SignedBeaconBlock (message_slot: Slot) (body: string)

record BeaconBlocksByRangeRequest =
  startSlot :: Slot
  count :: nat

text \<open>Every call the orchestrator makes on an object it does not own is written to a
  trace, in the order of the calls: the methods of a \<open>SyncChain\<close> (with the identity of the
  receiver), the logger, \<open>chain.getStatus\<close> and \<open>chain.processChainSegment\<close>.\<close>

datatype Effect =
    LogDebug string
  | LogVerbose string
  | LogError string
  | CallAddPeer nat PeerId
  | CallRemovePeer nat PeerId
  | CallRemove nat
  | CallStopSyncing nat
  | CallGetMetadata nat
  | CallStartSyncing nat Epoch
  | CallGetStatus
  | CallProcessChainSegment "SignedBeaconBlock list" bool

text \<open>The functions the file imports from modules that are not among the sources are
  parameters of the model. The type \<open>'w\<close> is the state of the beacon chain object
  (\<open>this.chain\<close>) at the moment of a call; \<open>getRangeSyncType\<close> and \<open>shouldRemoveChain\<close>
  receive it as the source passes \<open>this.chain\<close>. \<open>updateChains\<close> returns the pair
  \<open>(toStop, toStart)\<close>.\<close>

record 'w Imports =
  getRangeSyncType :: "'w \<Rightarrow> Status \<Rightarrow> Status \<Rightarrow> RangeSyncType"
  computeStartSlotAtEpoch :: "Epoch \<Rightarrow> Slot"
  computeEpochAtSlot :: "Slot \<Rightarrow> Epoch"
  shouldRemoveChain :: "SyncChain \<Rightarrow> Slot \<Rightarrow> 'w \<Rightarrow> bool"
  updateChains :: "SyncChain list \<Rightarrow> SyncChain list \<times> SyncChain list"

subsection \<open>RangeSync\<close>

text \<open>The \<open>chains\<close> map is a JavaScript \<open>Map\<close>: it iterates in insertion order, \<open>set\<close> on a
  present key keeps its place, \<open>delete\<close> drops the entry. It is an association list with
  \<open>map_of\<close>, \<open>AList.update\<close> and \<open>AList.delete\<close>. \<open>nextOid\<close> is the allocator of object
  identities.\<close>

record RangeSync =
  chains :: "(SyncChainId \<times> SyncChain) list"
  nextOid :: nat
  trace :: "Effect list"

definition RangeSync_init :: RangeSync where
  "RangeSync_init = \<lparr>chains = [], nextOid = 0, trace = []\<rparr>"

definition emit :: "Effect list \<Rightarrow> RangeSync \<Rightarrow> RangeSync" where
  "emit es s = s\<lparr>trace := trace s @ es\<rparr>"

text \<open>A method call on the chain object with identity \<open>i\<close> changes that object where the
  map holds it.\<close>

definition onChain :: "nat \<Rightarrow> (SyncChain \<Rightarrow> SyncChain) \<Rightarrow> RangeSync \<Rightarrow> RangeSync" where
  "onChain i f s =
     s\<lparr>chains := map (\<lambda>(cid, c). (cid, if oid c = i then f c else c)) (chains s)\<rparr>"

text \<open>The listener on the abort signal.\<close>

definition onAbort :: "RangeSync \<Rightarrow> RangeSync" where
  "onAbort s =
     s\<lparr>chains := map (\<lambda>(cid, c). (cid, SyncChain_remove c)) (chains s),
       trace := trace s @ map (\<lambda>(cid, c). CallRemove (oid c)) (chains s)\<rparr>"

definition removePeer :: "PeerId \<Rightarrow> RangeSync \<Rightarrow> RangeSync" where
  "removePeer peerId s =
     s\<lparr>chains := map (\<lambda>(cid, c). (cid, SyncChain_removePeer peerId c)) (chains s),
       trace := trace s @ map (\<lambda>(cid, c). CallRemovePeer (oid c) peerId) (chains s)\<rparr>"

fun syncState_loop :: "SyncChain list \<Rightarrow> ChainTarget list \<Rightarrow> RangeSyncState" where
  "syncState_loop [] syncingHeadTargets =
     (if length syncingHeadTargets > 0 then StatusHead syncingHeadTargets else StatusIdle)"
| "syncState_loop (chain # rest) syncingHeadTargets =
     (if isSyncing chain then
        (if syncType chain = Finalized then StatusFinalized (target chain)
         else syncState_loop rest (syncingHeadTargets @ [target chain]))
      else syncState_loop rest syncingHeadTargets)"

definition syncState :: "RangeSync \<Rightarrow> RangeSyncState" where
  "syncState s = syncState_loop (map snd (chains s)) []"

definition processChainSegment ::
  "(SignedBeaconBlock list \<Rightarrow> bool \<Rightarrow> Error + unit) \<Rightarrow> SignedBeaconBlock list \<Rightarrow> RangeSync
    \<Rightarrow> (Error + unit) \<times> RangeSync" where
  "processChainSegment chain_processChainSegment blocks s =
     (let trusted = True
      in (chain_processChainSegment blocks trusted,
          emit [CallProcessChainSegment blocks trusted] s))"

text \<open>Modelled from the spec: \<open>assertSequentialBlocksInRange\<close> is imported from
  \<open>sync/utils\<close>, which is not among the sources. By sections 4.2 and 6 of the spec the
  heights of the blocks must be a contiguous, strictly increasing match to the request
  \<open>{startHeight, count}\<close>; a response one block short is invalid (section 8). It returns
  the error it throws, or \<open>None\<close>.\<close>

definition assertSequentialBlocksInRange ::
  "SignedBeaconBlock list \<Rightarrow> BeaconBlocksByRangeRequest \<Rightarrow> Error option" where
  "assertSequentialBlocksInRange blocks request =
     (if map message_slot blocks = [startSlot request ..< startSlot request + count request]
      then None else Some BlocksByRangeError)"

definition downloadBeaconBlocksByRange ::
  "(PeerId \<Rightarrow> BeaconBlocksByRangeRequest \<Rightarrow> Error + SignedBeaconBlock list)
    \<Rightarrow> PeerId \<Rightarrow> BeaconBlocksByRangeRequest \<Rightarrow> Error + SignedBeaconBlock list" where
  "downloadBeaconBlocksByRange beaconBlocksByRange peerId request =
     (case beaconBlocksByRange peerId request of
        Inl e \<Rightarrow> Inl e
      | Inr blocks \<Rightarrow>
          (case assertSequentialBlocksInRange blocks request of
             Some e \<Rightarrow> Inl e
           | None \<Rightarrow> Inr blocks))"

definition addPeerOrCreateChain ::
  "Epoch \<Rightarrow> ChainTarget \<Rightarrow> PeerId \<Rightarrow> RangeSyncType \<Rightarrow> RangeSync \<Rightarrow> RangeSync" where
  "addPeerOrCreateChain start tgt peer ty s =
     (let cid = getSyncChainId ty tgt
      in case map_of (chains s) cid of
           None \<Rightarrow>
             (let syncingChain = new_SyncChain (nextOid s) start tgt ty
              in s\<lparr>chains := AList.update cid (SyncChain_addPeer peer syncingChain) (chains s),
                   nextOid := Suc (nextOid s),
                   trace := trace s @ [LogDebug ''New syncingChain'',
                                       CallAddPeer (oid syncingChain) peer]\<rparr>)
         | Some syncingChain \<Rightarrow>
             s\<lparr>chains := AList.update cid (SyncChain_addPeer peer syncingChain) (chains s),
               trace := trace s @ [CallAddPeer (oid syncingChain) peer]\<rparr>)"

text \<open>\<open>runChain\<close> is an async function. Up to its \<open>await\<close> it runs inside the caller:
  it takes the metadata of the chain and calls \<open>startSyncing\<close>.\<close>

definition runChain_begin :: "SyncChain \<Rightarrow> Epoch \<Rightarrow> RangeSync \<Rightarrow> RangeSync" where
  "runChain_begin syncChain localFinalizedEpoch s =
     emit [CallGetMetadata (oid syncChain), CallStartSyncing (oid syncChain) localFinalizedEpoch]
       (onChain (oid syncChain) SyncChain_startSyncing s)"

definition stopChain :: "SyncChain \<Rightarrow> RangeSync \<Rightarrow> RangeSync" where
  "stopChain syncChain s =
     emit [CallStopSyncing (oid syncChain)] (onChain (oid syncChain) SyncChain_stopSyncing s)"

text \<open>The first loop of \<open>update\<close>, over the entries of the map.\<close>

fun removeChains ::
  "'w Imports \<Rightarrow> 'w \<Rightarrow> Slot \<Rightarrow> (SyncChainId \<times> SyncChain) list \<Rightarrow> RangeSync \<Rightarrow> RangeSync" where
  "removeChains im w localFinalizedSlot [] s = s"
| "removeChains im w localFinalizedSlot ((cid, syncChain) # rest) s =
     (if shouldRemoveChain im syncChain localFinalizedSlot w
      then removeChains im w localFinalizedSlot rest
             (s\<lparr>chains := AList.delete cid (chains s),
                trace := trace s @ [CallRemove (oid syncChain), LogDebug ''Removed chain'']\<rparr>)
      else removeChains im w localFinalizedSlot rest s)"

definition update :: "'w Imports \<Rightarrow> 'w \<Rightarrow> Epoch \<Rightarrow> RangeSync \<Rightarrow> RangeSync" where
  "update im w localFinalizedEpoch s =
     (let localFinalizedSlot = computeStartSlotAtEpoch im localFinalizedEpoch;
          s1 = removeChains im w localFinalizedSlot (chains s) s;
          (toStop, toStart) = updateChains im (map snd (chains s1));
          s2 = foldl (\<lambda>st syncChain. stopChain syncChain st) s1 toStop
      in foldl (\<lambda>st syncChain. runChain_begin syncChain localFinalizedEpoch st) s2 toStart)"

text \<open>After the \<open>await\<close>: \<open>outcome\<close> is how the promise of \<open>startSyncing\<close> settled (\<open>Inl\<close> the
  error thrown), \<open>localStatus\<close> is what \<open>chain.getStatus\<close> answers when it is asked. The
  first component of the result is how the promise of \<open>runChain\<close> itself settles.\<close>

definition runChain_resume ::
  "'w Imports \<Rightarrow> 'w \<Rightarrow> Error + unit \<Rightarrow> Status \<Rightarrow> RangeSync \<Rightarrow> (Error + unit) \<times> RangeSync" where
  "runChain_resume im w outcome localStatus s =
     (case outcome of
        Inr _ \<Rightarrow>
          (Inr (), update im w (finalizedEpoch localStatus)
                     (emit [LogVerbose ''SyncChain reached target'', CallGetStatus] s))
      | Inl e \<Rightarrow>
          (if e = ErrorAborted then (Inr (), s)
           else (Inr (), update im w (finalizedEpoch localStatus)
                           (emit [LogError ''SyncChain error'', CallGetStatus] s))))"

text \<open>The \<open>switch\<close> of \<open>addPeer\<close> on the sync type: the start epoch and the target.\<close>

definition addPeer_switch ::
  "'w Imports \<Rightarrow> RangeSyncType \<Rightarrow> Status \<Rightarrow> Status \<Rightarrow> Epoch \<times> ChainTarget" where
  "addPeer_switch im rangeSyncType localStatus peerStatus =
     (case rangeSyncType of
        Finalized \<Rightarrow>
          (finalizedEpoch localStatus,
           \<lparr>slot = computeStartSlotAtEpoch im (finalizedEpoch peerStatus),
            root = finalizedRoot peerStatus\<rparr>)
      | Head \<Rightarrow>
          (min (computeEpochAtSlot im (headSlot localStatus)) (finalizedEpoch peerStatus),
           \<lparr>slot = headSlot peerStatus, root = headRoot peerStatus\<rparr>))"

text \<open>\<open>addPeer\<close> up to its last statement: the state in which \<open>update\<close> is called.\<close>

definition addPeer_attach ::
  "'w Imports \<Rightarrow> 'w \<Rightarrow> PeerId \<Rightarrow> Status \<Rightarrow> Status \<Rightarrow> RangeSync \<Rightarrow> RangeSync" where
  "addPeer_attach im w peerId localStatus peerStatus s =
     (let rangeSyncType = getRangeSyncType im w localStatus peerStatus;
          s1 = removePeer peerId (emit [LogDebug ''Sync peer joined''] s);
          (start, tgt) = addPeer_switch im rangeSyncType localStatus peerStatus
      in addPeerOrCreateChain start tgt peerId Finalized s1)"

definition addPeer ::
  "'w Imports \<Rightarrow> 'w \<Rightarrow> PeerId \<Rightarrow> Status \<Rightarrow> Status \<Rightarrow> RangeSync \<Rightarrow> RangeSync" where
  "addPeer im w peerId localStatus peerStatus s =
     update im w (finalizedEpoch localStatus) (addPeer_attach im w peerId localStatus peerStatus s)"

subsection \<open>Runs of the orchestrator\<close>

text \<open>What can happen to a \<open>RangeSync\<close>: its two public methods are called, a running chain
  settles and \<open>runChain\<close> resumes, a chain hands a segment to \<open>processChainSegment\<close>, the
  abort signal fires. Each event carries the state of the beacon chain at that moment.\<close>

datatype 'w Event =
    EvAddPeer 'w PeerId Status Status
  | EvRemovePeer PeerId
  | EvSettled 'w "Error + unit" Status
  | EvSegment "SignedBeaconBlock list \<Rightarrow> bool \<Rightarrow> Error + unit" "SignedBeaconBlock list"
  | EvAbort

fun step :: "'w Imports \<Rightarrow> 'w Event \<Rightarrow> RangeSync \<Rightarrow> RangeSync" where
  "step im (EvAddPeer w p l r) s = addPeer im w p l r s"
| "step im (EvRemovePeer p) s = removePeer p s"
| "step im (EvSettled w outcome l) s = snd (runChain_resume im w outcome l s)"
| "step im (EvSegment f blocks) s = snd (processChainSegment f blocks s)"
| "step im EvAbort s = onAbort s"

definition run :: "'w Imports \<Rightarrow> 'w Event list \<Rightarrow> RangeSync \<Rightarrow> RangeSync" where
  "run im evs s = foldl (\<lambda>st ev. step im ev st) s evs"

subsection \<open>Well-formed states\<close>

text \<open>What the map guarantees by construction: its keys are distinct, every chain is filed
  under the id of its own sync type and target, and the objects are distinct allocations.\<close>

definition chains_wf :: "RangeSync \<Rightarrow> bool" where
  "chains_wf s =
     (distinct (map fst (chains s)) \<and> distinct (map (\<lambda>e. oid (snd e)) (chains s))
      \<and> list_all (\<lambda>e. fst e = getSyncChainId (syncType (snd e)) (target (snd e))
                       \<and> oid (snd e) < nextOid s) (chains s))"

text \<open>The chains whose pool holds a peer.\<close>

definition chainsOfPeer :: "PeerId \<Rightarrow> RangeSync \<Rightarrow> (SyncChainId \<times> SyncChain) list" where
  "chainsOfPeer p s = filter (\<lambda>e. p \<in> set (peers (snd e))) (chains s)"

text \<open>All of a chain but its \<open>isSyncing\<close> flag.\<close>

definition chainCore :: "SyncChainId \<times> SyncChain \<Rightarrow> SyncChainId \<times> SyncChain" where
  "chainCore e = (fst e, (snd e)\<lparr>isSyncing := False\<rparr>)"

text \<open>The number of chains whose pool holds a peer.\<close>

definition poolCount :: "PeerId \<Rightarrow> (SyncChainId \<times> SyncChain) list \<Rightarrow> nat" where
  "poolCount p xs = length (filter (\<lambda>e. p \<in> set (peers (snd e))) xs)"

definition peersUnique :: "RangeSync \<Rightarrow> bool" where
  "peersUnique s = (\<forall>q. poolCount q (chains s) \<le> 1)"

text \<open>A trace in which every segment was handed over as trusted.\<close>

definition trustedOnly :: "Effect list \<Rightarrow> bool" where
  "trustedOnly tr = list_all (\<lambda>e. case e of CallProcessChainSegment bs t \<Rightarrow> t | _ \<Rightarrow> True) tr"

subsection \<open>Sample inputs\<close>

text \<open>Modelled from the spec: an instance of the imported functions, for runs on concrete
  inputs. By section 4.1 a peer needs a Finalized sync when its finalized epoch is beyond
  the local one and a Head sync otherwise; a chain is removed when its pool is empty or its
  start lies behind the local finalized slot; among the Finalized chains only the one with
  the largest pool runs (the first of the largest) and the others are stopped, the Head
  chains all run. An epoch has 32 slots.\<close>

definition sample_updateChains :: "SyncChain list \<Rightarrow> SyncChain list \<times> SyncChain list" where
  "sample_updateChains cs =
     (let heads = filter (\<lambda>c. syncType c = Head \<and> \<not> isSyncing c) cs
      in case filter (\<lambda>c. syncType c = Finalized) cs of
           [] \<Rightarrow> ([], heads)
         | f # fs \<Rightarrow>
             (let best = foldl (\<lambda>b c. if length (peers b) < length (peers c) then c else b) f fs
              in (filter (\<lambda>c. isSyncing c \<and> oid c \<noteq> oid best) (f # fs),
                  (if isSyncing best then [] else [best]) @ heads)))"

definition sampleImports :: "unit Imports" where
  "sampleImports =
     \<lparr>getRangeSyncType =
        (\<lambda>w l r. if finalizedEpoch l < finalizedEpoch r then Finalized else Head),
      computeStartSlotAtEpoch = (\<lambda>e. e * 32),
      computeEpochAtSlot = (\<lambda>sl. sl div 32),
      shouldRemoveChain = (\<lambda>c sl w. peers c = [] \<or> startEpoch c * 32 < sl),
      updateChains = sample_updateChains\<rparr>"

definition sampleLocal :: Status where
  "sampleLocal = \<lparr>finalizedRoot = [0x11], finalizedEpoch = 2, headRoot = [0x22], headSlot = 100\<rparr>"

text \<open>A peer ahead on finality, and a peer with the local finalized epoch and a head far
  ahead.\<close>

definition samplePeerFinalized :: Status where
  "samplePeerFinalized =
     \<lparr>finalizedRoot = [0xAB], finalizedEpoch = 5, headRoot = [0xCD], headSlot = 200\<rparr>"

definition samplePeerHead :: Status where
  "samplePeerHead =
     \<lparr>finalizedRoot = [0x11], finalizedEpoch = 2, headRoot = [0xEF], headSlot = 500\<rparr>"

text \<open>The local status once the node has finalized one more epoch.\<close>

definition sampleLocalLater :: Status where
  "sampleLocalLater = \<lparr>finalizedRoot = [0x33], finalizedEpoch = 3, headRoot = [0x44], headSlot = 130\<rparr>"

text \<open>A peer whose finalized epoch lies behind the local one, with a head far ahead.\<close>

definition samplePeerEarlier :: Status where
  "samplePeerEarlier =
     \<lparr>finalizedRoot = [0x10], finalizedEpoch = 1, headRoot = [0xEF], headSlot = 500\<rparr>"

definition sampleHeadChain :: SyncChain where
  "sampleHeadChain =
     \<lparr>oid = 0, startEpoch = 2, target = \<lparr>slot = 500, root = [0xEF]\<rparr>, syncType = Head,
      peers = [''a''], isSyncing = True\<rparr>"

definition sampleFinalizedChain :: SyncChain where
  "sampleFinalizedChain =
     \<lparr>oid = 1, startEpoch = 3, target = \<lparr>slot = 160, root = [0xAB]\<rparr>, syncType = Finalized,
      peers = [''b''], isSyncing = True\<rparr>"

definition sampleLargerChain :: SyncChain where
  "sampleLargerChain =
     \<lparr>oid = 2, startEpoch = 3, target = \<lparr>slot = 192, root = [0xCD]\<rparr>, syncType = Finalized,
      peers = [''c'', ''d''], isSyncing = False\<rparr>"

definition sampleState :: RangeSync where
  "sampleState =
     \<lparr>chains = [(''Head-500-0xef'', sampleHeadChain),
                (''Finalized-160-0xab'', sampleFinalizedChain),
                (''Finalized-192-0xcd'', sampleLargerChain)],
      nextOid = 3, trace = []\<rparr>"

section \<open>Verification\<close>

subsection \<open>The chain id is injective\<close>

lemma hexDigits_nth_inj:
  assumes "a < 16" "b < 16" "hexDigits ! a = hexDigits ! b"
  shows "a = b"
proof -
  have "distinct hexDigits" by (simp add: hexDigits_def)
  moreover have "length hexDigits = 16" by (simp add: hexDigits_def)
  ultimately show ?thesis using assms by (simp add: nth_eq_iff_index_eq)
qed

lemma hexDigits_nth_not_dash:
  assumes "a < 16"
  shows "hexDigits ! a \<noteq> CHR ''-''"
proof -
  have "CHR ''-'' \<notin> set hexDigits" by (simp add: hexDigits_def)
  moreover have "a < length hexDigits" using assms by (simp add: hexDigits_def)
  then have "hexDigits ! a \<in> set hexDigits" by (rule nth_mem)
  ultimately show ?thesis by metis
qed

lemma showDigits_no_dash: "CHR ''-'' \<notin> set (showDigits n)"
proof (induction n rule: showDigits.induct)
  case (1 n)
  show ?case
  proof (cases "n < 10")
    case True
    then have "hexDigits ! n \<noteq> CHR ''-''" by (intro hexDigits_nth_not_dash) simp
    with True show ?thesis by (subst showDigits.simps) auto
  next
    case False
    have "n mod 10 < 16" by (rule less_trans [OF mod_less_divisor]) simp_all
    then have "hexDigits ! (n mod 10) \<noteq> CHR ''-''" by (rule hexDigits_nth_not_dash)
    with False 1 show ?thesis by (subst showDigits.simps) auto
  qed
qed



lemma hexByte_inj: "hexByte a = hexByte b \<Longrightarrow> a = b"
proof -
  assume h: "hexByte a = hexByte b"
  have ua: "unat a < 256" using unsigned_less [of a] by simp
  have ub: "unat b < 256" using unsigned_less [of b] by simp
  have 1: "unat a div 16 < 16" "unat b div 16 < 16" using ua ub by simp_all
  have 2: "unat a mod 16 < 16" "unat b mod 16 < 16" by simp_all
  from h have "hexDigits ! (unat a div 16) = hexDigits ! (unat b div 16)"
    and "hexDigits ! (unat a mod 16) = hexDigits ! (unat b mod 16)"
    by (simp_all add: hexByte_def)
  then have "unat a div 16 = unat b div 16" "unat a mod 16 = unat b mod 16"
    using 1 2 by (simp_all add: hexDigits_nth_inj)
  then have "unat a = unat b" by (metis div_mult_mod_eq)
  then show "a = b" by (simp add: word_unat_eq_iff)
qed

lemma hexByte_length [simp]: "length (hexByte b) = 2"
  by (simp add: hexByte_def)

lemma concat_hexByte_inj:
  "concat (map hexByte xs) = concat (map hexByte ys) \<Longrightarrow> xs = ys"
proof (induction xs arbitrary: ys)
  case Nil
  then show ?case by (cases ys) (auto simp: hexByte_def)
next
  case (Cons x xs)
  show ?case
  proof (cases ys)
    case Nil
    with Cons.prems show ?thesis by (auto simp: hexByte_def)
  next
    case (Cons y ys')
    with Cons.prems have "hexByte x @ concat (map hexByte xs) = hexByte y @ concat (map hexByte ys')"
      by simp
    then have "hexByte x = hexByte y" "concat (map hexByte xs) = concat (map hexByte ys')"
      by (simp_all add: append_eq_append_conv)
    with Cons.IH Cons show ?thesis by (simp add: hexByte_inj)
  qed
qed

lemma toHexString_inj: "toHexString a = toHexString b \<Longrightarrow> a = b"
  by (simp add: toHexString_def concat_hexByte_inj)

lemma split_at_first:
  assumes "a @ c # b = a' @ c # b'" "c \<notin> set a" "c \<notin> set a'"
  shows "a = a' \<and> b = b'"
  using assms
proof (induction a arbitrary: a')
  case Nil
  then show ?case by (cases a') auto
next
  case (Cons x a)
  then show ?case by (cases a') auto
qed

lemma showSyncType_no_dash: "CHR ''-'' \<notin> set (showSyncType ty)"
  by (cases ty) simp_all

lemma showSyncType_inj: "showSyncType a = showSyncType b \<Longrightarrow> a = b"
  by (cases a; cases b) simp_all

lemma split_at_last:
  assumes "a @ c # b = a' @ c # b'" "c \<notin> set b" "c \<notin> set b'"
  shows "a = a' \<and> b = b'"
proof -
  from assms(1) have "rev (a @ c # b) = rev (a' @ c # b')" by (rule arg_cong)
  then have "rev b @ c # rev a = rev b' @ c # rev a'" by simp
  moreover have "c \<notin> set (rev b)" "c \<notin> set (rev b')" using assms(2,3) by simp_all
  ultimately have "rev b = rev b' \<and> rev a = rev a'" by (rule split_at_first)
  then show ?thesis by simp
qed

lemma hexByte_no_dash: "CHR ''-'' \<notin> set (hexByte b)"
proof -
  have "unat b < 256" using unsigned_less [of b] by simp
  then have "unat b div 16 < 16" by simp
  then have 1: "hexDigits ! (unat b div 16) \<noteq> CHR ''-''" by (rule hexDigits_nth_not_dash)
  have "unat b mod 16 < 16" by simp
  then have 2: "hexDigits ! (unat b mod 16) \<noteq> CHR ''-''" by (rule hexDigits_nth_not_dash)
  from 1 2 show ?thesis by (auto simp: hexByte_def)
qed

lemma toHexString_no_dash: "CHR ''-'' \<notin> set (toHexString bytes)"
  using hexByte_no_dash by (auto simp: toHexString_def)


text \<open>The id determines the sync type, the printed slot and the root; the printed slot
  determines the slot when it is a safe integer.\<close>

lemma getSyncChainId_parts:
  assumes "getSyncChainId ty tgt = getSyncChainId ty' tgt'"
  shows "ty = ty' \<and> showNumber (slot tgt) = showNumber (slot tgt') \<and> root tgt = root tgt'"
proof -
  from assms have "showSyncType ty @ CHR ''-'' # (showNumber (slot tgt) @ CHR ''-'' # toHexString (root tgt))
      = showSyncType ty' @ CHR ''-'' # (showNumber (slot tgt') @ CHR ''-'' # toHexString (root tgt'))"
    by (simp add: getSyncChainId_def)
  from split_at_first [OF this showSyncType_no_dash showSyncType_no_dash]
  have t: "showSyncType ty = showSyncType ty'"
    and r: "showNumber (slot tgt) @ CHR ''-'' # toHexString (root tgt)
          = showNumber (slot tgt') @ CHR ''-'' # toHexString (root tgt')" by simp_all
  from split_at_last [OF r toHexString_no_dash toHexString_no_dash]
  have n: "showNumber (slot tgt) = showNumber (slot tgt')"
    and h: "toHexString (root tgt) = toHexString (root tgt')"
    by simp_all
  from t have "ty = ty'" by (rule showSyncType_inj)
  moreover from h have "root tgt = root tgt'" by (rule toHexString_inj)
  ultimately show ?thesis using n by simp
qed


subsection \<open>Effects of the building blocks\<close>

lemma emit_simps [simp]:
  "chains (emit es s) = chains s" "nextOid (emit es s) = nextOid s"
  "trace (emit es s) = trace s @ es"
  by (simp_all add: emit_def)

lemma onChain_simps [simp]:
  "nextOid (onChain i f s) = nextOid s" "trace (onChain i f s) = trace s"
  "map fst (chains (onChain i f s)) = map fst (chains s)"
  by (simp_all add: onChain_def case_prod_unfold comp_def)

lemma core_onChain_start [simp]:
  "map chainCore (chains (onChain i SyncChain_startSyncing s)) = map chainCore (chains s)"
  by (simp add: onChain_def chainCore_def SyncChain_startSyncing_def case_prod_unfold comp_def)

lemma core_onChain_stop [simp]:
  "map chainCore (chains (onChain i SyncChain_stopSyncing s)) = map chainCore (chains s)"
  by (simp add: onChain_def chainCore_def SyncChain_stopSyncing_def case_prod_unfold comp_def)

lemma stopChain_simps [simp]:
  "nextOid (stopChain c s) = nextOid s"
  "trace (stopChain c s) = trace s @ [CallStopSyncing (oid c)]"
  "map chainCore (chains (stopChain c s)) = map chainCore (chains s)"
  by (simp_all add: stopChain_def)

lemma runChain_begin_simps [simp]:
  "nextOid (runChain_begin c e s) = nextOid s"
  "trace (runChain_begin c e s) = trace s @ [CallGetMetadata (oid c), CallStartSyncing (oid c) e]"
  "map chainCore (chains (runChain_begin c e s)) = map chainCore (chains s)"
  by (simp_all add: runChain_begin_def)

lemma foldl_stopChain:
  "nextOid (foldl (\<lambda>st c. stopChain c st) s cs) = nextOid s"
  "trace (foldl (\<lambda>st c. stopChain c st) s cs) = trace s @ map (\<lambda>c. CallStopSyncing (oid c)) cs"
  "map chainCore (chains (foldl (\<lambda>st c. stopChain c st) s cs)) = map chainCore (chains s)"
  by (induction cs arbitrary: s) simp_all

lemma foldl_runChain_begin:
  "nextOid (foldl (\<lambda>st c. runChain_begin c e st) s cs) = nextOid s"
  "trace (foldl (\<lambda>st c. runChain_begin c e st) s cs)
     = trace s @ concat (map (\<lambda>c. [CallGetMetadata (oid c), CallStartSyncing (oid c) e]) cs)"
  "map chainCore (chains (foldl (\<lambda>st c. runChain_begin c e st) s cs)) = map chainCore (chains s)"
  by (induction cs arbitrary: s) simp_all

text \<open>The removal loop deletes the keys of the entries that satisfy the predicate.\<close>

lemma removeChains_eq:
  "removeChains im w sl es s =
     s\<lparr>chains := filter (\<lambda>e. fst e \<notin> fst ` {x \<in> set es. shouldRemoveChain im (snd x) sl w}) (chains s),
       trace := trace s @ concat (map (\<lambda>e. [CallRemove (oid (snd e)), LogDebug ''Removed chain''])
                  (filter (\<lambda>e. shouldRemoveChain im (snd e) sl w) es))\<rparr>"
proof (induction es arbitrary: s)
  case Nil
  then show ?case by simp
next
  case (Cons e es)
  obtain cid c where e: "e = (cid, c)" by (cases e)
  show ?case
  proof (cases "shouldRemoveChain im c sl w")
    case True
    have "{x \<in> set (e # es). shouldRemoveChain im (snd x) sl w}
        = insert e {x \<in> set es. shouldRemoveChain im (snd x) sl w}"
      using True e by auto
    then have "fst ` {x \<in> set (e # es). shouldRemoveChain im (snd x) sl w}
        = insert cid (fst ` {x \<in> set es. shouldRemoveChain im (snd x) sl w})"
      using e by simp
    then have "filter (\<lambda>x. fst x \<notin> fst ` {x \<in> set es. shouldRemoveChain im (snd x) sl w}) (AList.delete cid (chains s))
        = filter (\<lambda>x. fst x \<notin> fst ` {x \<in> set (e # es). shouldRemoveChain im (snd x) sl w}) (chains s)"
      by (auto simp: AList.delete_eq intro!: filter_cong)
    then show ?thesis using True e by (simp add: Cons.IH)
  next
    case False
    have "{x \<in> set (e # es). shouldRemoveChain im (snd x) sl w} = {x \<in> set es. shouldRemoveChain im (snd x) sl w}"
      using False e by auto
    then show ?thesis using False e by (simp add: Cons.IH)
  qed
qed

lemma removeChains_self:
  assumes "distinct (map fst (chains s))"
  shows "chains (removeChains im w sl (chains s) s)
       = filter (\<lambda>e. \<not> shouldRemoveChain im (snd e) sl w) (chains s)"
proof -
  have "fst e \<notin> fst ` {x \<in> set (chains s). shouldRemoveChain im (snd x) sl w}
        \<longleftrightarrow> \<not> shouldRemoveChain im (snd e) sl w" if "e \<in> set (chains s)" for e
  proof
    assume "fst e \<notin> fst ` {x \<in> set (chains s). shouldRemoveChain im (snd x) sl w}"
    then show "\<not> shouldRemoveChain im (snd e) sl w" using that by force
  next
    assume n: "\<not> shouldRemoveChain im (snd e) sl w"
    show "fst e \<notin> fst ` {x \<in> set (chains s). shouldRemoveChain im (snd x) sl w}"
    proof
      assume "fst e \<in> fst ` {x \<in> set (chains s). shouldRemoveChain im (snd x) sl w}"
      then obtain x where x: "x \<in> set (chains s)" "shouldRemoveChain im (snd x) sl w" "fst x = fst e"
        by auto
      from assms x(1) that x(3) have "x = e"
        by (metis eq_key_imp_eq_value prod.collapse)
      with x(2) n show False by simp
    qed
  qed
  then show ?thesis by (simp add: removeChains_eq cong: filter_cong)
qed

lemma SyncChain_addPeer_simps [simp]:
  "oid (SyncChain_addPeer p c) = oid c" "startEpoch (SyncChain_addPeer p c) = startEpoch c"
  "target (SyncChain_addPeer p c) = target c" "syncType (SyncChain_addPeer p c) = syncType c"
  "isSyncing (SyncChain_addPeer p c) = isSyncing c"
  "set (peers (SyncChain_addPeer p c)) = insert p (set (peers c))"
  by (auto simp: SyncChain_addPeer_def)

lemma SyncChain_removePeer_simps [simp]:
  "oid (SyncChain_removePeer p c) = oid c" "startEpoch (SyncChain_removePeer p c) = startEpoch c"
  "target (SyncChain_removePeer p c) = target c" "syncType (SyncChain_removePeer p c) = syncType c"
  "isSyncing (SyncChain_removePeer p c) = isSyncing c"
  "set (peers (SyncChain_removePeer p c)) = set (peers c) - {p}"
  by (auto simp: SyncChain_removePeer_def)

lemma new_SyncChain_simps [simp]:
  "oid (new_SyncChain i e t ty) = i" "startEpoch (new_SyncChain i e t ty) = e"
  "target (new_SyncChain i e t ty) = t" "syncType (new_SyncChain i e t ty) = ty"
  "isSyncing (new_SyncChain i e t ty) = False" "peers (new_SyncChain i e t ty) = []"
  by (simp_all add: new_SyncChain_def)

lemma removePeer_simps [simp]:
  "chains (removePeer p s) = map (\<lambda>e. (fst e, SyncChain_removePeer p (snd e))) (chains s)"
  "nextOid (removePeer p s) = nextOid s"
  "trace (removePeer p s) = trace s @ map (\<lambda>e. CallRemovePeer (oid (snd e)) p) (chains s)"
  by (simp_all add: removePeer_def case_prod_unfold)

lemma onAbort_simps [simp]:
  "chains (onAbort s) = map (\<lambda>e. (fst e, SyncChain_remove (snd e))) (chains s)"
  "nextOid (onAbort s) = nextOid s"
  "trace (onAbort s) = trace s @ map (\<lambda>e. CallRemove (oid (snd e))) (chains s)"
  by (simp_all add: onAbort_def case_prod_unfold)

lemma update_absent: "map_of xs k = None \<Longrightarrow> AList.update k v xs = xs @ [(k, v)]"
  by (induction xs) (auto split: if_splits)

lemma update_present:
  "map_of xs k = Some c \<Longrightarrow>
   \<exists>ys zs. xs = ys @ (k, c) # zs \<and> k \<notin> fst ` set ys \<and> AList.update k v xs = ys @ (k, v) # zs"
proof (induction xs)
  case Nil
  then show ?case by simp
next
  case (Cons x xs)
  show ?case
  proof (cases "fst x = k")
    case True
    with Cons.prems have "x = (k, c)" by (cases x) auto
    then have "x # xs = [] @ (k, c) # xs \<and> k \<notin> fst ` set [] \<and> AList.update k v (x # xs) = [] @ (k, v) # xs"
      by simp
    then show ?thesis by blast
  next
    case False
    with Cons.prems have "map_of xs k = Some c" by (cases x) auto
    from Cons.IH [OF this] obtain ys zs where
      "xs = ys @ (k, c) # zs" "k \<notin> fst ` set ys" "AList.update k v xs = ys @ (k, v) # zs" by blast
    with False have "x # xs = (x # ys) @ (k, c) # zs \<and> k \<notin> fst ` set (x # ys)
        \<and> AList.update k v (x # xs) = (x # ys) @ (k, v) # zs"
      by (cases x) auto
    then show ?thesis by blast
  qed
qed

text \<open>What attaching a peer does to the map, in both cases.\<close>

lemma addPeerOrCreateChain_absent:
  assumes "map_of (chains s) (getSyncChainId ty tgt) = None"
  shows "addPeerOrCreateChain start tgt p ty s =
     s\<lparr>chains := chains s @ [(getSyncChainId ty tgt, SyncChain_addPeer p (new_SyncChain (nextOid s) start tgt ty))],
       nextOid := Suc (nextOid s),
       trace := trace s @ [LogDebug ''New syncingChain'', CallAddPeer (nextOid s) p]\<rparr>"
  using assms by (simp add: addPeerOrCreateChain_def Let_def update_absent)

lemma addPeerOrCreateChain_present:
  assumes "map_of (chains s) (getSyncChainId ty tgt) = Some c"
  shows "\<exists>ys zs. chains s = ys @ (getSyncChainId ty tgt, c) # zs \<and> getSyncChainId ty tgt \<notin> fst ` set ys \<and>
     addPeerOrCreateChain start tgt p ty s =
       s\<lparr>chains := ys @ (getSyncChainId ty tgt, SyncChain_addPeer p c) # zs,
         trace := trace s @ [CallAddPeer (oid c) p]\<rparr>"
proof -
  from update_present [OF assms, of "SyncChain_addPeer p c"] obtain ys zs where
    "chains s = ys @ (getSyncChainId ty tgt, c) # zs" "getSyncChainId ty tgt \<notin> fst ` set ys"
    "AList.update (getSyncChainId ty tgt) (SyncChain_addPeer p c) (chains s) = ys @ (getSyncChainId ty tgt, SyncChain_addPeer p c) # zs"
    by blast
  then show ?thesis using assms by (auto simp: addPeerOrCreateChain_def Let_def)
qed

subsection \<open>Peer pools\<close>

lemma chainCore_simps [simp]:
  "fst (chainCore e) = fst e" "oid (snd (chainCore e)) = oid (snd e)"
  "startEpoch (snd (chainCore e)) = startEpoch (snd e)" "target (snd (chainCore e)) = target (snd e)"
  "syncType (snd (chainCore e)) = syncType (snd e)" "peers (snd (chainCore e)) = peers (snd e)"
  by (simp_all add: chainCore_def)

lemma poolCount_simps [simp]:
  "poolCount p [] = 0"
  "poolCount p (e # xs) = (if p \<in> set (peers (snd e)) then 1 else 0) + poolCount p xs"
  "poolCount p (xs @ ys) = poolCount p xs + poolCount p ys"
  by (simp_all add: poolCount_def)

lemma poolCount_core: "poolCount p (map chainCore xs) = poolCount p xs"
  by (induction xs) simp_all

lemma poolCount_cong:
  "map chainCore xs = map chainCore ys \<Longrightarrow> poolCount p xs = poolCount p ys"
  by (metis poolCount_core)

lemma poolCount_filter: "poolCount p (filter P xs) \<le> poolCount p xs"
  by (induction xs) simp_all

lemma poolCount_map_removePeer [simp]:
  "poolCount q (map (\<lambda>e. (fst e, SyncChain_removePeer p (snd e))) xs)
     = (if q = p then 0 else poolCount q xs)"
  by (induction xs) auto

lemma poolCount_map_remove [simp]:
  "poolCount q (map (\<lambda>e. (fst e, SyncChain_remove (snd e))) xs) = 0"
  by (induction xs) (auto simp: SyncChain_remove_def)

lemma poolCount_attach_other:
  assumes "q \<noteq> p"
  shows "poolCount q (chains (addPeerOrCreateChain start tgt p ty s)) = poolCount q (chains s)"
proof (cases "map_of (chains s) (getSyncChainId ty tgt)")
  case None
  then show ?thesis using assms by (simp add: addPeerOrCreateChain_absent)
next
  case (Some c)
  from addPeerOrCreateChain_present [OF Some, of start p] obtain ys zs where
    a: "chains s = ys @ (getSyncChainId ty tgt, c) # zs"
    and b: "addPeerOrCreateChain start tgt p ty s =
       s\<lparr>chains := ys @ (getSyncChainId ty tgt, SyncChain_addPeer p c) # zs,
         trace := trace s @ [CallAddPeer (oid c) p]\<rparr>" by blast
  show ?thesis using assms by (simp add: a b)
qed

lemma poolCount_attach_self:
  assumes "poolCount p (chains s) = 0"
  shows "poolCount p (chains (addPeerOrCreateChain start tgt p ty s)) = 1"
proof (cases "map_of (chains s) (getSyncChainId ty tgt)")
  case None
  then show ?thesis using assms by (simp add: addPeerOrCreateChain_absent)
next
  case (Some c)
  from addPeerOrCreateChain_present [OF Some, of start p] obtain ys zs where
    a: "chains s = ys @ (getSyncChainId ty tgt, c) # zs"
    and b: "addPeerOrCreateChain start tgt p ty s =
       s\<lparr>chains := ys @ (getSyncChainId ty tgt, SyncChain_addPeer p c) # zs,
         trace := trace s @ [CallAddPeer (oid c) p]\<rparr>" by blast
  from assms have "poolCount p ys = 0" "poolCount p zs = 0" by (simp_all add: a split: if_splits)
  then show ?thesis by (simp add: b)
qed

lemma update_core:
  "map chainCore (chains (update im w e s))
     = map chainCore (chains (removeChains im w (computeStartSlotAtEpoch im e) (chains s) s))"
  by (simp add: update_def Let_def case_prod_unfold foldl_stopChain foldl_runChain_begin)

lemma update_nextOid [simp]: "nextOid (update im w e s) = nextOid s"
  by (simp add: update_def Let_def case_prod_unfold foldl_stopChain foldl_runChain_begin removeChains_eq)

lemma poolCount_update: "poolCount q (chains (update im w e s)) \<le> poolCount q (chains s)"
proof -
  have "poolCount q (chains (update im w e s))
      = poolCount q (chains (removeChains im w (computeStartSlotAtEpoch im e) (chains s) s))"
    by (rule poolCount_cong) (rule update_core)
  also have "\<dots> \<le> poolCount q (chains s)"
    by (simp add: removeChains_eq poolCount_filter)
  finally show ?thesis .
qed

lemma poolCount_addPeer_attach_self:
  "poolCount p (chains (addPeer_attach im w p l r s)) = 1"
proof -
  have "poolCount p (chains (removePeer p (emit [LogDebug ''Sync peer joined''] s))) = 0"
    by simp
  then show ?thesis
    unfolding addPeer_attach_def Let_def case_prod_unfold
    by (rule poolCount_attach_self)
qed

lemma poolCount_addPeer_attach_other:
  assumes "q \<noteq> p"
  shows "poolCount q (chains (addPeer_attach im w p l r s)) = poolCount q (chains s)"
proof -
  have "poolCount q (chains (removePeer p (emit [LogDebug ''Sync peer joined''] s))) = poolCount q (chains s)"
    using assms by simp
  then show ?thesis
    unfolding addPeer_attach_def Let_def case_prod_unfold
    by (simp only: poolCount_attach_other [OF assms])
qed

lemma peersUnique_attach:
  assumes "peersUnique s"
  shows "peersUnique (addPeer_attach im w p l r s)"
  unfolding peersUnique_def
proof
  fix q
  show "poolCount q (chains (addPeer_attach im w p l r s)) \<le> 1"
  proof (cases "q = p")
    case True
    then show ?thesis by (simp only: poolCount_addPeer_attach_self)
  next
    case False
    then show ?thesis using assms by (simp add: poolCount_addPeer_attach_other peersUnique_def)
  qed
qed

lemma peersUnique_update:
  assumes "peersUnique s"
  shows "peersUnique (update im w e s)"
  unfolding peersUnique_def
proof
  fix q
  have "poolCount q (chains (update im w e s)) \<le> poolCount q (chains s)"
    by (rule poolCount_update)
  also have "\<dots> \<le> 1" using assms by (simp add: peersUnique_def)
  finally show "poolCount q (chains (update im w e s)) \<le> 1" .
qed

lemma peersUnique_step: "peersUnique s \<Longrightarrow> peersUnique (step im ev s)"
proof (cases ev)
  case (EvAddPeer w p l r)
  assume "peersUnique s"
  then show ?thesis unfolding EvAddPeer by (simp add: addPeer_def peersUnique_update peersUnique_attach)
next
  case (EvRemovePeer p)
  assume "peersUnique s"
  then show ?thesis unfolding EvRemovePeer peersUnique_def by simp
next
  case (EvSettled w outcome l)
  assume a: "peersUnique s"
  have "peersUnique (update im w e (emit es s))" for e es
    by (rule peersUnique_update) (use a in \<open>simp add: peersUnique_def\<close>)
  then show ?thesis unfolding EvSettled using a
    by (auto simp: runChain_resume_def split: sum.splits)
next
  case (EvSegment f blocks)
  assume "peersUnique s"
  then show ?thesis unfolding EvSegment by (simp add: processChainSegment_def peersUnique_def Let_def)
next
  case EvAbort
  show ?thesis unfolding EvAbort peersUnique_def by simp
qed

lemma peersUnique_run: "peersUnique s \<Longrightarrow> peersUnique (run im evs s)"
  unfolding run_def by (induction evs arbitrary: s) (simp_all add: peersUnique_step)

lemma peersUnique_init: "peersUnique RangeSync_init"
  by (simp add: peersUnique_def RangeSync_init_def)

text \<open>C2. In every state that a sequence of events reaches from the initial state, a
  peer is in the pool of at most one chain of the map. \<open>removePeer\<close> leaves the peer in no
  pool, and when \<open>addPeer\<close> has attached the peer (before its \<open>update\<close>) the peer is in the
  pool of exactly one chain, whatever the state was.\<close>

theorem peer_in_at_most_one_chain:
  "length (chainsOfPeer q (run im evs RangeSync_init)) \<le> 1
   \<and> chainsOfPeer p (removePeer p s) = []
   \<and> length (chainsOfPeer p (addPeer_attach im w p l r s)) = 1"
proof -
  have "peersUnique (run im evs RangeSync_init)"
    by (rule peersUnique_run) (rule peersUnique_init)
  then have 1: "length (chainsOfPeer q (run im evs RangeSync_init)) \<le> 1"
    by (simp add: peersUnique_def poolCount_def chainsOfPeer_def)
  have "poolCount p (chains (removePeer p s)) = 0"
    by simp
  then have 2: "chainsOfPeer p (removePeer p s) = []"
    unfolding poolCount_def chainsOfPeer_def by simp
  have 3: "length (chainsOfPeer p (addPeer_attach im w p l r s)) = 1"
    using poolCount_addPeer_attach_self [of p im w l r s]
    by (simp add: poolCount_def chainsOfPeer_def)
  from 1 2 3 show ?thesis by blast
qed

subsection \<open>The reported state\<close>

lemma syncState_loop_eq:
  "syncState_loop cs acc =
     (case filter (\<lambda>c. isSyncing c \<and> syncType c = Finalized) cs of
        c # _ \<Rightarrow> StatusFinalized (target c)
      | [] \<Rightarrow> (if acc @ map target (filter isSyncing cs) = [] then StatusIdle
               else StatusHead (acc @ map target (filter isSyncing cs))))"
proof (induction cs arbitrary: acc)
  case Nil
  then show ?case by simp
next
  case (Cons c cs)
  show ?case
  proof (cases "isSyncing c")
    case True
    then show ?thesis
      by (cases "syncType c = Finalized") (simp_all add: Cons.IH split: list.splits)
  next
    case False
    then show ?thesis by (simp add: Cons.IH split: list.splits)
  qed
qed

lemma syncing_heads:
  "filter (\<lambda>c. isSyncing c \<and> syncType c = Finalized) cs = [] \<Longrightarrow>
   filter isSyncing cs = filter (\<lambda>c. isSyncing c \<and> syncType c = Head) cs"
proof (rule filter_cong [OF refl])
  fix x
  assume a: "filter (\<lambda>c. isSyncing c \<and> syncType c = Finalized) cs = []" and x: "x \<in> set cs"
  from a x have "\<not> (isSyncing x \<and> syncType x = Finalized)"
    by (simp add: filter_empty_conv)
  then show "isSyncing x = (isSyncing x \<and> syncType x = Head)"
    by (cases "syncType x") auto
qed

text \<open>C3. \<open>syncState\<close> reports \<open>Finalized\<close> with the target of a syncing Finalized chain (the
  first one in the order of the map) whenever there is one, whatever Head chains are
  syncing; otherwise \<open>Head\<close> with the targets of all syncing Head chains when there is one;
  otherwise \<open>Idle\<close>. It reports \<open>Idle\<close> exactly when no chain is syncing.\<close>

theorem syncState_precedence:
  fixes s :: RangeSync
  defines "cs \<equiv> map snd (chains s)"
  shows "((\<exists>c \<in> set cs. syncType c = Finalized \<and> isSyncing c) \<longrightarrow>
            syncState s = StatusFinalized
              (target (hd (filter (\<lambda>c. isSyncing c \<and> syncType c = Finalized) cs))))
       \<and> (\<not> (\<exists>c \<in> set cs. syncType c = Finalized \<and> isSyncing c) \<longrightarrow>
            (\<exists>c \<in> set cs. isSyncing c) \<longrightarrow>
            syncState s = StatusHead
              (map target (filter (\<lambda>c. isSyncing c \<and> syncType c = Head) cs)))
       \<and> (\<not> (\<exists>c \<in> set cs. isSyncing c) \<longrightarrow> syncState s = StatusIdle)
       \<and> (syncState s = StatusIdle \<longleftrightarrow> (\<forall>c \<in> set cs. \<not> isSyncing c))"
proof -
  let ?fin = "filter (\<lambda>c. isSyncing c \<and> syncType c = Finalized) cs"
  let ?syn = "filter isSyncing cs"
  have eq: "syncState s = syncState_loop cs []"
    by (simp add: syncState_def cs_def)
  have fin_iff: "(\<exists>c \<in> set cs. syncType c = Finalized \<and> isSyncing c) \<longleftrightarrow> ?fin \<noteq> []"
    by (auto simp: filter_empty_conv)
  have syn_iff: "(\<exists>c \<in> set cs. isSyncing c) \<longleftrightarrow> ?syn \<noteq> []"
    by (auto simp: filter_empty_conv)
  have all_iff: "(\<forall>c \<in> set cs. \<not> isSyncing c) \<longleftrightarrow> ?syn = []"
    by (auto simp: filter_empty_conv)
  have a: "syncState s = StatusFinalized (target (hd ?fin))" if "?fin \<noteq> []"
  proof -
    from that obtain c r where "?fin = c # r" by (cases ?fin) auto
    then show ?thesis by (simp add: eq syncState_loop_eq)
  qed
  have b: "syncState s = StatusHead (map target (filter (\<lambda>c. isSyncing c \<and> syncType c = Head) cs))"
    if "?fin = []" "?syn \<noteq> []"
  proof -
    have "syncState s = StatusHead (map target ?syn)"
      using that by (simp add: eq syncState_loop_eq)
    then show ?thesis using syncing_heads [OF that(1)] by simp
  qed
  have c: "syncState s = StatusIdle" if "?syn = []"
  proof -
    have "?fin = []" using that by (auto simp: filter_empty_conv)
    then show ?thesis using that by (simp add: eq syncState_loop_eq)
  qed
  have d: "syncState s \<noteq> StatusIdle" if "?syn \<noteq> []"
  proof (cases "?fin = []")
    case True
    then show ?thesis using b [OF True that] by simp
  next
    case False
    then show ?thesis using a [OF False] by simp
  qed
  have 1: "?fin \<noteq> [] \<longrightarrow> syncState s = StatusFinalized (target (hd ?fin))"
    using a by blast
  have 2: "\<not> ?fin \<noteq> [] \<longrightarrow> ?syn \<noteq> [] \<longrightarrow>
      syncState s = StatusHead (map target (filter (\<lambda>c. isSyncing c \<and> syncType c = Head) cs))"
    using b by blast
  have 3: "\<not> ?syn \<noteq> [] \<longrightarrow> syncState s = StatusIdle"
    using c by blast
  have 4: "syncState s = StatusIdle \<longleftrightarrow> ?syn = []"
    using c d by blast
  show ?thesis
    unfolding fin_iff syn_iff all_iff
    by (intro conjI 1 2 3 4)
qed

theorem syncState_precedence_witness:
  "((\<exists>c \<in> set (map snd (chains sampleState)). syncType c = Finalized \<and> isSyncing c)
      \<and> syncState sampleState = StatusFinalized \<lparr>slot = 160, root = [0xAB]\<rparr>)
   \<and> (\<not> (\<exists>c \<in> set (map snd (chains (onChain 1 SyncChain_stopSyncing sampleState))).
             syncType c = Finalized \<and> isSyncing c)
      \<and> (\<exists>c \<in> set (map snd (chains (onChain 1 SyncChain_stopSyncing sampleState))). isSyncing c)
      \<and> syncState (onChain 1 SyncChain_stopSyncing sampleState)
          = StatusHead [\<lparr>slot = 500, root = [0xEF]\<rparr>])
   \<and> (\<not> (\<exists>c \<in> set (map snd (chains RangeSync_init)). isSyncing c)
      \<and> syncState RangeSync_init = StatusIdle)"
  using syncState_precedence [of sampleState]
    syncState_precedence [of "onChain 1 SyncChain_stopSyncing sampleState"]
    syncState_precedence [of RangeSync_init]
  by (simp add: RangeSync_init_def sampleState_def sampleHeadChain_def sampleFinalizedChain_def
      sampleLargerChain_def onChain_def SyncChain_stopSyncing_def)

subsection \<open>Well-formed states are preserved\<close>

lemma core_fst: "map chainCore xs = map chainCore ys \<Longrightarrow> map fst xs = map fst ys"
proof -
  assume "map chainCore xs = map chainCore ys"
  then have "map (fst \<circ> chainCore) xs = map (fst \<circ> chainCore) ys"
    by (metis map_map)
  then show ?thesis by (simp add: comp_def)
qed

lemma core_oid:
  "map chainCore xs = map chainCore ys \<Longrightarrow> map (\<lambda>e. oid (snd e)) xs = map (\<lambda>e. oid (snd e)) ys"
proof -
  assume "map chainCore xs = map chainCore ys"
  then have "map ((\<lambda>e. oid (snd e)) \<circ> chainCore) xs = map ((\<lambda>e. oid (snd e)) \<circ> chainCore) ys"
    by (metis map_map)
  then show ?thesis by (simp add: comp_def)
qed


lemma core_list_all:
  assumes "map chainCore xs = map chainCore ys"
  shows "list_all (\<lambda>e. fst e = getSyncChainId (syncType (snd e)) (target (snd e)) \<and> oid (snd e) < n) xs
       = list_all (\<lambda>e. fst e = getSyncChainId (syncType (snd e)) (target (snd e)) \<and> oid (snd e) < n) ys"
proof -
  let ?P = "\<lambda>e. fst e = getSyncChainId (syncType (snd e)) (target (snd e)) \<and> oid (snd e) < n"
  have *: "list_all ?P (map chainCore zs) = list_all ?P zs" for zs
    by (induction zs) simp_all
  have "list_all ?P xs = list_all ?P (map chainCore xs)" by (simp only: *)
  also have "\<dots> = list_all ?P (map chainCore ys)" by (simp only: assms)
  also have "\<dots> = list_all ?P ys" by (simp only: *)
  finally show ?thesis .
qed

lemma chains_wfI:
  assumes "chains s = cs" "nextOid s = n" "distinct (map fst cs)"
    "distinct (map (\<lambda>e. oid (snd e)) cs)"
    "list_all (\<lambda>e. fst e = getSyncChainId (syncType (snd e)) (target (snd e)) \<and> oid (snd e) < n) cs"
  shows "chains_wf s"
  using assms by (simp add: chains_wf_def)

lemma chains_wfD:
  assumes "chains_wf s"
  shows "distinct (map fst (chains s))" "distinct (map (\<lambda>e. oid (snd e)) (chains s))"
    "list_all (\<lambda>e. fst e = getSyncChainId (syncType (snd e)) (target (snd e))
                       \<and> oid (snd e) < nextOid s) (chains s)"
  using assms by (simp_all add: chains_wf_def)

lemma chains_wf_core:
  assumes "map chainCore (chains s) = map chainCore (chains t)" "nextOid s = nextOid t"
  shows "chains_wf s = chains_wf t"
  unfolding chains_wf_def
  by (simp only: core_fst [OF assms(1)] core_oid [OF assms(1)] core_list_all [OF assms(1)] assms(2))

lemma chains_wf_filter:
  assumes "chains_wf s"
  shows "chains_wf (s\<lparr>chains := filter P (chains s), trace := tr\<rparr>)"
proof -
  from assms have d1: "distinct (map fst (chains s))"
    and d2: "distinct (map (\<lambda>e. oid (snd e)) (chains s))"
    and la: "list_all (\<lambda>e. fst e = getSyncChainId (syncType (snd e)) (target (snd e))
                       \<and> oid (snd e) < nextOid s) (chains s)"
    by (simp_all add: chains_wf_def)
  have "distinct (map fst (filter P (chains s)))" using d1 by (rule distinct_map_filter)
  moreover have "distinct (map (\<lambda>e. oid (snd e)) (filter P (chains s)))"
    using d2 by (rule distinct_map_filter)
  moreover have "list_all (\<lambda>e. fst e = getSyncChainId (syncType (snd e)) (target (snd e))
                       \<and> oid (snd e) < nextOid s) (filter P (chains s))"
    using la by (simp add: list_all_iff)
  ultimately show ?thesis by (simp add: chains_wf_def)
qed

lemma chains_wf_emit [simp]: "chains_wf (emit es s) = chains_wf s"
  by (simp add: chains_wf_def)

lemma chains_wf_update:
  assumes "chains_wf s"
  shows "chains_wf (update im w e s)"
proof -
  let ?r = "removeChains im w (computeStartSlotAtEpoch im e) (chains s) s"
  have "chains_wf ?r" by (subst removeChains_eq) (rule chains_wf_filter [OF assms])
  moreover have "nextOid ?r = nextOid s" by (simp add: removeChains_eq)
  then have "chains_wf (update im w e s) = chains_wf ?r"
    by (intro chains_wf_core update_core) simp
  ultimately show ?thesis by simp
qed


lemma chains_wf_map:
  assumes "chains_wf s"
    and "\<And>c. oid (f c) = oid c \<and> syncType (f c) = syncType c \<and> target (f c) = target c"
  shows "chains_wf (s\<lparr>chains := map (\<lambda>e. (fst e, f (snd e))) (chains s), trace := tr\<rparr>)"
proof -
  from assms(1) have d1: "distinct (map fst (chains s))"
    and d2: "distinct (map (\<lambda>e. oid (snd e)) (chains s))"
    and la: "list_all (\<lambda>e. fst e = getSyncChainId (syncType (snd e)) (target (snd e))
                       \<and> oid (snd e) < nextOid s) (chains s)"
    by (simp_all add: chains_wf_def)
  have k: "map fst (map (\<lambda>e. (fst e, f (snd e))) (chains s)) = map fst (chains s)"
    by (simp add: comp_def)
  have o: "map (\<lambda>e. oid (snd e)) (map (\<lambda>e. (fst e, f (snd e))) (chains s))
      = map (\<lambda>e. oid (snd e)) (chains s)"
    by (simp add: comp_def assms(2))
  have l: "list_all (\<lambda>e. fst e = getSyncChainId (syncType (snd e)) (target (snd e))
                       \<and> oid (snd e) < nextOid s) (map (\<lambda>e. (fst e, f (snd e))) (chains s))"
    using la by (simp add: list_all_iff assms(2))
  show ?thesis
  proof (rule chains_wfI [where cs = "map (\<lambda>e. (fst e, f (snd e))) (chains s)" and n = "nextOid s"])
    show "distinct (map fst (map (\<lambda>e. (fst e, f (snd e))) (chains s)))"
      using d1 by (simp only: k)
    show "distinct (map (\<lambda>e. oid (snd e)) (map (\<lambda>e. (fst e, f (snd e))) (chains s)))"
      using d2 by (simp only: o)
    show "list_all (\<lambda>e. fst e = getSyncChainId (syncType (snd e)) (target (snd e))
                       \<and> oid (snd e) < nextOid s) (map (\<lambda>e. (fst e, f (snd e))) (chains s))"
      by (rule l)
  qed simp_all
qed

lemma chains_wf_removePeer:
  assumes "chains_wf s"
  shows "chains_wf (removePeer p s)"
proof -
  have w: "chains_wf (s\<lparr>chains := map (\<lambda>e. (fst e, SyncChain_removePeer p (snd e))) (chains s),
      trace := tr\<rparr>)" for tr
    by (rule chains_wf_map [OF assms]) simp
  have e: "removePeer p s = s\<lparr>chains := map (\<lambda>e. (fst e, SyncChain_removePeer p (snd e))) (chains s),
      trace := trace s @ map (\<lambda>e. CallRemovePeer (oid (snd e)) p) (chains s)\<rparr>"
    by (simp add: removePeer_def case_prod_unfold)
  show ?thesis unfolding e by (rule w)
qed

lemma chains_wf_onAbort:
  assumes "chains_wf s"
  shows "chains_wf (onAbort s)"
proof -
  have w: "chains_wf (s\<lparr>chains := map (\<lambda>e. (fst e, SyncChain_remove (snd e))) (chains s),
      trace := tr\<rparr>)" for tr
    by (rule chains_wf_map [OF assms]) (simp add: SyncChain_remove_def)
  have e: "onAbort s = s\<lparr>chains := map (\<lambda>e. (fst e, SyncChain_remove (snd e))) (chains s),
      trace := trace s @ map (\<lambda>e. CallRemove (oid (snd e))) (chains s)\<rparr>"
    by (simp add: onAbort_def case_prod_unfold)
  show ?thesis unfolding e by (rule w)
qed

lemma chains_wf_attach:
  assumes "chains_wf s"
  shows "chains_wf (addPeerOrCreateChain start tgt p ty s)"
proof (cases "map_of (chains s) (getSyncChainId ty tgt)")
  case None
  let ?new = "(getSyncChainId ty tgt, SyncChain_addPeer p (new_SyncChain (nextOid s) start tgt ty))"
  from None have k: "getSyncChainId ty tgt \<notin> fst ` set (chains s)"
    by (simp add: map_of_eq_None_iff)
  note d = chains_wfD [OF assms]
  from d(3) have lt: "\<forall>e \<in> set (chains s). oid (snd e) < nextOid s"
    by (simp add: list_all_iff)
  then have o: "nextOid s \<notin> (\<lambda>e. oid (snd e)) ` set (chains s)" by auto
  show ?thesis
  proof (rule chains_wfI [where cs = "chains s @ [?new]" and n = "Suc (nextOid s)"])
    show "chains (addPeerOrCreateChain start tgt p ty s) = chains s @ [?new]"
      by (simp add: addPeerOrCreateChain_absent [OF None])
    show "nextOid (addPeerOrCreateChain start tgt p ty s) = Suc (nextOid s)"
      by (simp add: addPeerOrCreateChain_absent [OF None])
    show "distinct (map fst (chains s @ [?new]))" using d(1) k by simp
    show "distinct (map (\<lambda>e. oid (snd e)) (chains s @ [?new]))" using d(2) o by simp
    show "list_all (\<lambda>e. fst e = getSyncChainId (syncType (snd e)) (target (snd e))
        \<and> oid (snd e) < Suc (nextOid s)) (chains s @ [?new])"
      using d(3) by (auto simp: list_all_iff less_Suc_eq)
  qed
next
  case (Some c)
  from addPeerOrCreateChain_present [OF Some, of start p] obtain ys zs where
    a: "chains s = ys @ (getSyncChainId ty tgt, c) # zs"
    and b: "addPeerOrCreateChain start tgt p ty s =
       s\<lparr>chains := ys @ (getSyncChainId ty tgt, SyncChain_addPeer p c) # zs,
         trace := trace s @ [CallAddPeer (oid c) p]\<rparr>" by blast
  let ?cs = "ys @ (getSyncChainId ty tgt, SyncChain_addPeer p c) # zs"
  note d = chains_wfD [OF assms]
  have keys: "map fst ?cs = map fst (chains s)" by (simp add: a)
  have oids: "map (\<lambda>e. oid (snd e)) ?cs = map (\<lambda>e. oid (snd e)) (chains s)" by (simp add: a)
  show ?thesis
  proof (rule chains_wfI [where cs = ?cs and n = "nextOid s"])
    show "chains (addPeerOrCreateChain start tgt p ty s) = ?cs" by (simp add: b)
    show "nextOid (addPeerOrCreateChain start tgt p ty s) = nextOid s" by (simp add: b)
    show "distinct (map fst ?cs)" using d(1) by (simp only: keys)
    show "distinct (map (\<lambda>e. oid (snd e)) ?cs)" using d(2) by (simp only: oids)
    show "list_all (\<lambda>e. fst e = getSyncChainId (syncType (snd e)) (target (snd e))
        \<and> oid (snd e) < nextOid s) ?cs"
      using d(3) unfolding a by simp
  qed
qed

lemma chains_wf_addPeer_attach:
  assumes "chains_wf s"
  shows "chains_wf (addPeer_attach im w p l r s)"
proof -
  have "chains_wf (removePeer p (emit [LogDebug ''Sync peer joined''] s))"
    by (rule chains_wf_removePeer) (simp add: assms)
  then show ?thesis
    unfolding addPeer_attach_def Let_def case_prod_unfold by (rule chains_wf_attach)
qed

lemma chains_wf_step:
  assumes "chains_wf s"
  shows "chains_wf (step im ev s)"
proof (cases ev)
  case (EvAddPeer w p l r)
  show ?thesis unfolding EvAddPeer step.simps addPeer_def
    by (intro chains_wf_update chains_wf_addPeer_attach assms)
next
  case (EvRemovePeer p)
  show ?thesis unfolding EvRemovePeer step.simps by (rule chains_wf_removePeer [OF assms])
next
  case (EvSettled w outcome l)
  have u: "chains_wf (update im w e (emit es s))" for e es
    by (rule chains_wf_update) (simp add: assms)
  show ?thesis
  proof (cases outcome)
    case (Inl err)
    then show ?thesis unfolding EvSettled using u assms
      by (cases "err = ErrorAborted") (simp_all add: runChain_resume_def)
  next
    case (Inr x)
    then show ?thesis unfolding EvSettled using u by (simp add: runChain_resume_def)
  qed
next
  case (EvSegment f blocks)
  show ?thesis unfolding EvSegment using assms by (simp add: processChainSegment_def Let_def)
next
  case EvAbort
  show ?thesis unfolding EvAbort step.simps by (rule chains_wf_onAbort [OF assms])
qed

lemma chains_wf_run: "chains_wf s \<Longrightarrow> chains_wf (run im evs s)"
  unfolding run_def by (induction evs arbitrary: s) (simp_all add: chains_wf_step)


subsection \<open>The update pass, runChain and the abort\<close>

lemma update_trace:
  "trace (update im w e s) =
     trace (removeChains im w (computeStartSlotAtEpoch im e) (chains s) s)
     @ map (\<lambda>c. CallStopSyncing (oid c))
         (fst (updateChains im (map snd (chains (removeChains im w (computeStartSlotAtEpoch im e) (chains s) s)))))
     @ concat (map (\<lambda>c. [CallGetMetadata (oid c), CallStartSyncing (oid c) e])
         (snd (updateChains im (map snd (chains (removeChains im w (computeStartSlotAtEpoch im e) (chains s) s))))))"
  by (simp add: update_def Let_def case_prod_unfold foldl_stopChain foldl_runChain_begin)

lemma removeChains_trace:
  "trace (removeChains im w sl es s) =
     trace s @ concat (map (\<lambda>x. [CallRemove (oid (snd x)), LogDebug ''Removed chain''])
                  (filter (\<lambda>x. shouldRemoveChain im (snd x) sl w) es))"
  by (simp add: removeChains_eq)

lemma update_trace_extends: "\<exists>tl. trace (update im w e s) = trace s @ tl \<and> trustedOnly tl"
proof -
  let ?r = "removeChains im w (computeStartSlotAtEpoch im e) (chains s) s"
  let ?a = "concat (map (\<lambda>x. [CallRemove (oid (snd x)), LogDebug ''Removed chain''])
                  (filter (\<lambda>x. shouldRemoveChain im (snd x) (computeStartSlotAtEpoch im e) w) (chains s)))"
  let ?b = "map (\<lambda>c. CallStopSyncing (oid c)) (fst (updateChains im (map snd (chains ?r))))"
  let ?c = "concat (map (\<lambda>c. [CallGetMetadata (oid c), CallStartSyncing (oid c) e])
         (snd (updateChains im (map snd (chains ?r)))))"
  have "trace (update im w e s) = trace s @ (?a @ ?b @ ?c)"
    by (simp add: update_trace removeChains_trace)
  moreover have "trustedOnly ?a" by (auto simp: trustedOnly_def list_all_iff)
  moreover have "trustedOnly ?b" by (auto simp: trustedOnly_def list_all_iff)
  moreover have "trustedOnly ?c" by (auto simp: trustedOnly_def list_all_iff)
  then have "trustedOnly (?a @ ?b @ ?c)"
    using \<open>trustedOnly ?a\<close> \<open>trustedOnly ?b\<close> by (simp only: trustedOnly_def list_all_append simp_thms)
  ultimately show ?thesis by blast
qed

text \<open>C6. One pass of \<open>update\<close> on a well-formed state. Its calls come in this order: first
  \<open>remove\<close> (and the debug line) for every chain that satisfies \<open>shouldRemoveChain\<close> against the
  local finalized slot; then \<open>stopSyncing\<close> for every chain of \<open>toStop\<close>; then, for every chain
  of \<open>toStart\<close>, \<open>runChain\<close> up to its call of \<open>startSyncing\<close>; where \<open>toStop\<close> and \<open>toStart\<close>
  are what \<open>updateChains\<close> returns on the chains that were not removed. The map holds
  exactly those chains afterwards. Since \<open>updateChains\<close> has only the surviving chains to
  choose from, no chain removed in the pass is stopped or started in it.\<close>

theorem update_order:
  fixes im :: "'w Imports" and w :: 'w and e :: Epoch and s :: RangeSync
  assumes wf: "chains_wf s"
  defines "sl \<equiv> computeStartSlotAtEpoch im e"
  defines "removed \<equiv> filter (\<lambda>x. shouldRemoveChain im (snd x) sl w) (chains s)"
  defines "kept \<equiv> filter (\<lambda>x. \<not> shouldRemoveChain im (snd x) sl w) (chains s)"
  defines "toStop \<equiv> fst (updateChains im (map snd kept))"
  defines "toStart \<equiv> snd (updateChains im (map snd kept))"
  shows "trace (update im w e s) =
           trace s
           @ concat (map (\<lambda>x. [CallRemove (oid (snd x)), LogDebug ''Removed chain'']) removed)
           @ map (\<lambda>c. CallStopSyncing (oid c)) toStop
           @ concat (map (\<lambda>c. [CallGetMetadata (oid c), CallStartSyncing (oid c) e]) toStart)
       \<and> map chainCore (chains (update im w e s)) = map chainCore kept
       \<and> (set toStop \<union> set toStart \<subseteq> snd ` set kept \<longrightarrow>
            (\<forall>x \<in> set removed. \<forall>c \<in> set toStop \<union> set toStart. oid c \<noteq> oid (snd x)))"
proof -
  note d = chains_wfD [OF wf]
  have k: "chains (removeChains im w sl (chains s) s) = kept"
    unfolding kept_def by (rule removeChains_self [OF d(1)])
  have 1: "trace (update im w e s) =
           trace s
           @ concat (map (\<lambda>x. [CallRemove (oid (snd x)), LogDebug ''Removed chain'']) removed)
           @ map (\<lambda>c. CallStopSyncing (oid c)) toStop
           @ concat (map (\<lambda>c. [CallGetMetadata (oid c), CallStartSyncing (oid c) e]) toStart)"
    unfolding update_trace removeChains_trace toStop_def toStart_def removed_def
    using k by (simp add: sl_def)
  have 2: "map chainCore (chains (update im w e s)) = map chainCore kept"
    using k by (simp add: update_core sl_def)
  have 3: "oid c \<noteq> oid (snd x)"
    if sub: "set toStop \<union> set toStart \<subseteq> snd ` set kept"
      and x: "x \<in> set removed" and c: "c \<in> set toStop \<union> set toStart" for x c
  proof
    assume eq: "oid c = oid (snd x)"
    from sub c obtain y where y: "y \<in> set kept" "c = snd y" by auto
    from y(1) have y1: "y \<in> set (chains s)" "\<not> shouldRemoveChain im (snd y) sl w"
      by (simp_all add: kept_def)
    from x have x1: "x \<in> set (chains s)" "shouldRemoveChain im (snd x) sl w"
      by (simp_all add: removed_def)
    from d(2) have "inj_on (\<lambda>e. oid (snd e)) (set (chains s))" by (simp add: distinct_map)
    with x1(1) y1(1) eq y(2) have "x = y" by (auto dest: inj_onD)
    with x1(2) y1(2) show False by simp
  qed
  from 1 2 3 show ?thesis by blast
qed

text \<open>C7. However \<open>startSyncing\<close> settles, the promise of \<open>runChain\<close> resolves: no error leaves
  it. When \<open>startSyncing\<close> completed, or failed with an error other than \<open>ErrorAborted\<close>,
  \<open>runChain\<close> logs, asks the chain for its status and runs \<open>update\<close> with the finalized epoch
  of that status.\<close>

theorem runChain_failure_contained:
  "fst (runChain_resume im w outcome st s) = Inr ()
   \<and> (outcome \<noteq> Inl ErrorAborted \<longrightarrow>
        snd (runChain_resume im w outcome st s) =
          update im w (finalizedEpoch st)
            (emit [if outcome = Inr () then LogVerbose ''SyncChain reached target''
                   else LogError ''SyncChain error'', CallGetStatus] s)
        \<and> CallGetStatus \<in> set (trace (snd (runChain_resume im w outcome st s))))"
proof -
  have 1: "fst (runChain_resume im w outcome st s) = Inr ()"
    by (simp add: runChain_resume_def split: sum.splits)
  have 2: "snd (runChain_resume im w outcome st s) =
          update im w (finalizedEpoch st)
            (emit [if outcome = Inr () then LogVerbose ''SyncChain reached target''
                   else LogError ''SyncChain error'', CallGetStatus] s)"
    if "outcome \<noteq> Inl ErrorAborted"
    using that by (cases outcome) (simp_all add: runChain_resume_def)
  have 3: "CallGetStatus \<in> set (trace (update im w e (emit [x, CallGetStatus] s)))" for e x
  proof -
    from update_trace_extends [of im w e "emit [x, CallGetStatus] s"] obtain tl where
      "trace (update im w e (emit [x, CallGetStatus] s)) = trace (emit [x, CallGetStatus] s) @ tl"
      by blast
    then show ?thesis by simp
  qed
  from 1 2 3 show ?thesis by simp
qed

text \<open>C8. When the abort signal fires, every chain of the map receives \<open>remove\<close>, in the order
  of the map, and the map keeps its keys. When \<open>startSyncing\<close> ends with \<open>ErrorAborted\<close>,
  \<open>runChain\<close> returns at once: the state and its trace are unchanged, so nothing is logged,
  the status is not asked for and \<open>update\<close> is not called.\<close>

theorem abort_teardown:
  "trace (onAbort s) = trace s @ map (\<lambda>x. CallRemove (oid (snd x))) (chains s)
   \<and> map fst (chains (onAbort s)) = map fst (chains s)
   \<and> runChain_resume im w (Inl ErrorAborted) st s = (Inr (), s)"
  by (simp add: runChain_resume_def comp_def)

text \<open>C9. \<open>downloadBeaconBlocksByRange\<close> either raises an error or returns the blocks the
  network gave, and then these passed \<open>assertSequentialBlocksInRange\<close>: their slots are
  exactly the requested range, contiguous and increasing. It returns blocks in no other
  case.\<close>

theorem download_validated:
  "((\<exists>e. downloadBeaconBlocksByRange net p r = Inl e)
     \<or> (\<exists>bs. downloadBeaconBlocksByRange net p r = Inr bs \<and> net p r = Inr bs
           \<and> assertSequentialBlocksInRange bs r = None
           \<and> map message_slot bs = [startSlot r ..< startSlot r + count r]))
   \<and> (downloadBeaconBlocksByRange net p r = Inr bs
        \<longleftrightarrow> net p r = Inr bs \<and> map message_slot bs = [startSlot r ..< startSlot r + count r])"
  by (auto simp: downloadBeaconBlocksByRange_def assertSequentialBlocksInRange_def
      split: sum.splits option.splits if_splits)

subsection \<open>Start epoch and target\<close>

lemma attach_lookup:
  "map_of (chains (addPeerOrCreateChain start tgt p ty s)) (getSyncChainId ty tgt)
     = Some (SyncChain_addPeer p
         (case map_of (chains s) (getSyncChainId ty tgt) of
            None \<Rightarrow> new_SyncChain (nextOid s) start tgt ty
          | Some c0 \<Rightarrow> c0))"
  by (simp add: addPeerOrCreateChain_def Let_def update_conv' split: option.splits)




lemma wf_lookup_parts:
  assumes "chains_wf s" "map_of (chains s) (getSyncChainId ty tgt) = Some c"
  shows "syncType c = ty \<and> root (target c) = root tgt"
proof -
  from assms(2) have "(getSyncChainId ty tgt, c) \<in> set (chains s)" by (rule map_of_SomeD)
  with chains_wfD(3) [OF assms(1)]
  have "getSyncChainId ty tgt = getSyncChainId (syncType c) (target c)"
    by (auto simp: list_all_iff)
  from getSyncChainId_parts [OF this] show ?thesis by simp
qed



subsection \<open>Trusted segments\<close>

lemma trustedOnly_append [simp]: "trustedOnly (a @ b) = (trustedOnly a \<and> trustedOnly b)"
  by (simp add: trustedOnly_def)

lemma trustedOnly_update:
  assumes "trustedOnly (trace s)"
  shows "trustedOnly (trace (update im w e s))"
proof -
  from update_trace_extends [of im w e s] obtain tl where
    "trace (update im w e s) = trace s @ tl" "trustedOnly tl" by blast
  with assms show ?thesis by simp
qed

lemma trustedOnly_removePeer:
  assumes "trustedOnly (trace s)"
  shows "trustedOnly (trace (removePeer p s))"
proof -
  have "trustedOnly (map (\<lambda>e. CallRemovePeer (oid (snd e)) p) (chains s))"
    by (simp add: trustedOnly_def list_all_iff)
  with assms show ?thesis by simp
qed

lemma trustedOnly_onAbort:
  assumes "trustedOnly (trace s)"
  shows "trustedOnly (trace (onAbort s))"
proof -
  have "trustedOnly (map (\<lambda>e. CallRemove (oid (snd e))) (chains s))"
    by (simp add: trustedOnly_def list_all_iff)
  with assms show ?thesis by simp
qed

lemma trustedOnly_attach:
  assumes "trustedOnly (trace s)"
  shows "trustedOnly (trace (addPeerOrCreateChain start tgt p ty s))"
proof (cases "map_of (chains s) (getSyncChainId ty tgt)")
  case None
  have "trustedOnly [LogDebug ''New syncingChain'', CallAddPeer (nextOid s) p]"
    by (simp add: trustedOnly_def)
  with assms show ?thesis by (simp add: addPeerOrCreateChain_absent [OF None])
next
  case (Some c)
  have t: "trustedOnly [CallAddPeer (oid c) p]" by (simp add: trustedOnly_def)
  from Some have "trace (addPeerOrCreateChain start tgt p ty s) = trace s @ [CallAddPeer (oid c) p]"
    by (simp add: addPeerOrCreateChain_def Let_def)
  with assms t show ?thesis by simp
qed

lemma trustedOnly_addPeer:
  assumes "trustedOnly (trace s)"
  shows "trustedOnly (trace (addPeer im w p l r s))"
proof -
  have "trustedOnly [LogDebug ''Sync peer joined'']" by (simp add: trustedOnly_def)
  with assms have "trustedOnly (trace (emit [LogDebug ''Sync peer joined''] s))" by simp
  then have "trustedOnly (trace (removePeer p (emit [LogDebug ''Sync peer joined''] s)))"
    by (rule trustedOnly_removePeer)
  then have "trustedOnly (trace (addPeer_attach im w p l r s))"
    unfolding addPeer_attach_def Let_def case_prod_unfold by (rule trustedOnly_attach)
  then show ?thesis unfolding addPeer_def by (rule trustedOnly_update)
qed

lemma trustedOnly_step:
  assumes "trustedOnly (trace s)"
  shows "trustedOnly (trace (step im ev s))"
proof (cases ev)
  case (EvAddPeer w p l r)
  show ?thesis unfolding EvAddPeer step.simps by (rule trustedOnly_addPeer [OF assms])
next
  case (EvRemovePeer p)
  show ?thesis unfolding EvRemovePeer step.simps by (rule trustedOnly_removePeer [OF assms])
next
  case (EvSettled w outcome l)
  have u: "trustedOnly (trace (update im w e (emit [x, CallGetStatus] s)))"
    if "x = LogVerbose a \<or> x = LogError a" for e x a
  proof (rule trustedOnly_update)
    have "trustedOnly [x, CallGetStatus]" using that by (auto simp: trustedOnly_def)
    with assms show "trustedOnly (trace (emit [x, CallGetStatus] s))" by simp
  qed
  show ?thesis
  proof (cases outcome)
    case (Inl err)
    then show ?thesis unfolding EvSettled using u assms
      by (cases "err = ErrorAborted") (simp_all add: runChain_resume_def)
  next
    case (Inr x)
    then show ?thesis unfolding EvSettled using u by (simp add: runChain_resume_def)
  qed
next
  case (EvSegment f blocks)
  have "trustedOnly [CallProcessChainSegment blocks True]" by (simp add: trustedOnly_def)
  with assms show ?thesis unfolding EvSegment by (simp add: processChainSegment_def Let_def)
next
  case EvAbort
  show ?thesis unfolding EvAbort step.simps by (rule trustedOnly_onAbort [OF assms])
qed

lemma trustedOnly_run: "trustedOnly (trace s) \<Longrightarrow> trustedOnly (trace (run im evs s))"
  unfolding run_def by (induction evs arbitrary: s) (simp_all add: trustedOnly_step)

text \<open>C10. \<open>processChainSegment\<close> calls \<open>chain.processChainSegment\<close> with \<open>trusted = true\<close>, and in
  every run of the orchestrator every such call carries \<open>true\<close>.\<close>

theorem segments_always_trusted:
  "fst (processChainSegment f blocks s) = f blocks True
   \<and> trace (snd (processChainSegment f blocks s)) = trace s @ [CallProcessChainSegment blocks True]
   \<and> (\<forall>bs t. CallProcessChainSegment bs t \<in> set (trace (run im evs RangeSync_init)) \<longrightarrow> t)"
proof -
  have tr: "trustedOnly (trace (run im evs RangeSync_init))"
    by (rule trustedOnly_run) (simp add: trustedOnly_def RangeSync_init_def)
  have 3: "\<forall>bs t. CallProcessChainSegment bs t \<in> set (trace (run im evs RangeSync_init)) \<longrightarrow> t"
  proof (intro allI impI)
    fix bs t
    assume "CallProcessChainSegment bs t \<in> set (trace (run im evs RangeSync_init))"
    with tr show t by (auto simp: trustedOnly_def list_all_iff)
  qed
  have 1: "fst (processChainSegment f blocks s) = f blocks True"
    by (simp add: processChainSegment_def Let_def)
  have 2: "trace (snd (processChainSegment f blocks s)) = trace s @ [CallProcessChainSegment blocks True]"
    by (simp add: processChainSegment_def Let_def)
  from 1 2 3 show ?thesis by (intro conjI)
qed

theorem segments_always_trusted_witness:
  "CallProcessChainSegment [SignedBeaconBlock 64 ''b''] True
     \<in> set (trace (run sampleImports
          [EvAddPeer () ''peerA'' sampleLocal samplePeerFinalized,
           EvSegment (\<lambda>bs t. Inr ()) [SignedBeaconBlock 64 ''b'']] RangeSync_init))"
  using segments_always_trusted [of "\<lambda>bs t. Inr ()" "[]" RangeSync_init sampleImports
          "[EvAddPeer () ''peerA'' sampleLocal samplePeerFinalized,
           EvSegment (\<lambda>bs t. Inr ()) [SignedBeaconBlock 64 ''b'']]"]
  by (simp add: run_def processChainSegment_def Let_def)

subsection \<open>Concrete runs\<close>

lemmas sample_defs = sampleImports_def sample_updateChains_def sampleLocal_def samplePeerHead_def
  samplePeerFinalized_def sampleState_def sampleHeadChain_def sampleFinalizedChain_def
  sampleLargerChain_def sampleLocalLater_def samplePeerEarlier_def RangeSync_init_def

lemmas model_defs = addPeer_def addPeer_attach_def addPeer_switch_def addPeerOrCreateChain_def
  update_def removePeer_def emit_def onChain_def stopChain_def runChain_begin_def
  new_SyncChain_def SyncChain_addPeer_def SyncChain_removePeer_def SyncChain_startSyncing_def
  SyncChain_stopSyncing_def SyncChain_remove_def getSyncChainId_def toHexString_def hexByte_def
  hexDigits_def showNumber_def isSafeInteger_def showDigits.simps syncState_def runChain_resume_def chains_wf_def Let_def

theorem update_order_witness:
  "chains_wf sampleState
   \<and> trace (update sampleImports () 3 sampleState)
       = [CallRemove 0, LogDebug ''Removed chain'', CallStopSyncing 1,
          CallGetMetadata 2, CallStartSyncing 2 3]
   \<and> map fst (chains (update sampleImports () 3 sampleState))
       = [''Finalized-160-0xab'', ''Finalized-192-0xcd'']
   \<and> CallStopSyncing 0 \<notin> set (trace (update sampleImports () 3 sampleState))
   \<and> CallStartSyncing 0 3 \<notin> set (trace (update sampleImports () 3 sampleState))"
  using update_order [where s = sampleState and im = sampleImports and w = "()" and e = 3]
  by (simp add: sample_defs model_defs)

theorem runChain_failure_contained_witness:
  "Inl (OtherError ''batch failed'') \<noteq> (Inl ErrorAborted :: Error + unit)
   \<and> fst (runChain_resume sampleImports () (Inl (OtherError ''batch failed'')) sampleLocal
           RangeSync_init) = Inr ()
   \<and> trace (snd (runChain_resume sampleImports () (Inl (OtherError ''batch failed'')) sampleLocal
           RangeSync_init)) = [LogError ''SyncChain error'', CallGetStatus]"
  using runChain_failure_contained [where im = sampleImports and w = "()"
      and outcome = "Inl (OtherError ''batch failed'')" and st = sampleLocal and s = RangeSync_init]
  by (simp add: sample_defs model_defs)



subsection \<open>One chain per target\<close>

lemma addPeer_attach_eq:
  "addPeer_attach im w p l r s =
     addPeerOrCreateChain (fst (addPeer_switch im (getRangeSyncType im w l r) l r))
       (snd (addPeer_switch im (getRangeSyncType im w l r) l r)) p Finalized
       (removePeer p (emit [LogDebug ''Sync peer joined''] s))"
  by (simp add: addPeer_attach_def Let_def case_prod_unfold)









lemma addPeer_chain_is_Finalized:
  assumes "chains_wf s"
  shows "\<exists>c. map_of (chains (addPeer_attach im w p l r s))
           (getSyncChainId Finalized (snd (addPeer_switch im (getRangeSyncType im w l r) l r))) = Some c
         \<and> p \<in> set (peers c) \<and> syncType c = Finalized"
proof -
  let ?tgt = "snd (addPeer_switch im (getRangeSyncType im w l r) l r)"
  let ?pre = "removePeer p (emit [LogDebug ''Sync peer joined''] s)"
  define c where "c = SyncChain_addPeer p
         (case map_of (chains ?pre) (getSyncChainId Finalized ?tgt) of
            None \<Rightarrow> new_SyncChain (nextOid ?pre)
                      (fst (addPeer_switch im (getRangeSyncType im w l r) l r)) ?tgt Finalized
          | Some c0 \<Rightarrow> c0)"
  have look: "map_of (chains (addPeer_attach im w p l r s)) (getSyncChainId Finalized ?tgt) = Some c"
    unfolding addPeer_attach_eq c_def by (rule attach_lookup)
  have "chains_wf (addPeer_attach im w p l r s)" by (rule chains_wf_addPeer_attach [OF assms])
  from wf_lookup_parts [OF this look] have ty: "syncType c = Finalized" by simp
  have "p \<in> set (peers c)" by (simp add: c_def)
  with look ty have "map_of (chains (addPeer_attach im w p l r s)) (getSyncChainId Finalized ?tgt) = Some c
         \<and> p \<in> set (peers c) \<and> syncType c = Finalized" by (intro conjI)
  then show ?thesis by (rule exI)
qed

text \<open>C1. The peer should join a chain of the sync type it was classified with. The code
  at an input classified Head: on a fresh orchestrator the peer is attached to a chain
  created with sync type Finalized, filed under a Finalized id, and \<open>syncState\<close> reports a
  Finalized sync. \<open>addPeer\<close> hands the constant \<open>RangeSyncType.Finalized\<close> to
  \<open>addPeerOrCreateChain\<close>, whatever \<open>getRangeSyncType\<close> returned.\<close>

theorem addPeer_head_peer_gets_finalized_chain:
  "getRangeSyncType sampleImports () sampleLocal samplePeerHead = Head
   \<and> map (\<lambda>x. (fst x, syncType (snd x), peers (snd x)))
        (chains (addPeer sampleImports () ''peerA'' sampleLocal samplePeerHead RangeSync_init))
       = [(''Finalized-500-0xef'', Finalized, [''peerA''])]
   \<and> syncState (addPeer sampleImports () ''peerA'' sampleLocal samplePeerHead RangeSync_init)
       = StatusFinalized \<lparr>slot = 500, root = [0xEF]\<rparr>"
  by (simp add: sample_defs model_defs)

end
